theory Spec2Isabelle
  imports Main "HOL-Library.Sublist" "HOL-Library.Multiset"
begin

section \<open>The brute-force cell of the set-packing notebook\<close>

text \<open>
  The notebook \<^verbatim>\<open>community/aqua/optimization/set_packing.ipynb\<close> loads a list of
  subsets into the module-level variable \<^verbatim>\<open>list_of_subsets\<close> and defines
  \<^verbatim>\<open>
  def brute_force():
      def bitfield(n, L):
          result = np.binary_repr(n, L)
          return [int(digit) for digit in result]

      L = len(list_of_subsets)
      max = 2**L
      max_v = -np.inf
      for i in range(max):
          cur = bitfield(i, L)
          cur_v = setpacking.check_disjoint(cur, list_of_subsets)
          if cur_v:
              if np.count_nonzero(cur) > max_v:
                  max_v = np.count_nonzero(cur)
      return max_v
  \<close>
  Python integers are unbounded; the loop index and the width are never negative, so
  they are natural numbers here. Digits and subset elements are integers.
\<close>

subsection \<open>Values\<close>

datatype error = ValueError

text \<open>
  \<^verbatim>\<open>max_v\<close> starts as the float \<^verbatim>\<open>-np.inf\<close> and is overwritten by integer counts.
\<close>

datatype max_value = NegInf | Count int

text \<open>The module-level state the function reads.\<close>

record globals =
  list_of_subsets :: "int list list"

subsection \<open>The library calls made by \<^verbatim>\<open>bitfield\<close>\<close>

text \<open>
  \<^verbatim>\<open>np.binary_repr\<close> belongs to numpy, not to this repository. For a non-negative
  number and a given width numpy computes
  \<^verbatim>\<open>
  if num == 0:
      return '0' * (width or 1)
  elif num > 0:
      binary = bin(num)
      binwidth = len(binary) - 2
      outwidth = (binwidth if width is None else max(binwidth, width))
      warn_if_insufficient(width, binwidth)
      return binary[2:].zfill(outwidth)
  \<close>
  What happens when \<^verbatim>\<open>width < binwidth\<close> depends on the numpy release: the releases that
  run on the notebook's recorded kernel (Python 3.6.7) issue a DeprecationWarning and go
  on; later releases raise ValueError. The release is a parameter of the model.
\<close>

datatype width_policy = Warn | Raise

definition digit_char :: "nat \<Rightarrow> char" where
  "digit_char d = (if d = 0 then CHR ''0'' else CHR ''1'')"

text \<open>\<^verbatim>\<open>bin(num)[2:]\<close>: the binary numeral of \<^verbatim>\<open>num\<close>, most significant digit first.\<close>

fun bin_digits :: "nat \<Rightarrow> string" where
  "bin_digits n =
     (if n < 2 then [digit_char n] else bin_digits (n div 2) @ [digit_char (n mod 2)])"

declare bin_digits.simps [simp del]

text \<open>\<^verbatim>\<open>str.zfill\<close> on a string without a sign.\<close>

definition zfill :: "nat \<Rightarrow> string \<Rightarrow> string" where
  "zfill width s = replicate (width - length s) (CHR ''0'') @ s"

definition binary_repr :: "width_policy \<Rightarrow> nat \<Rightarrow> nat \<Rightarrow> error + string" where
  "binary_repr pol num width =
     (if num = 0 then Inr (replicate (if width = 0 then 1 else width) (CHR ''0''))
      else
        let binary = bin_digits num;
            binwidth = length binary;
            outwidth = max binwidth width
        in if width < binwidth \<and> pol = Raise then Inl ValueError
           else Inr (zfill outwidth binary))"

text \<open>\<^verbatim>\<open>int(digit)\<close> on a one-character string: a decimal digit or ValueError.\<close>

definition py_int :: "char \<Rightarrow> error + int" where
  "py_int c =
     (let k = (of_char c :: nat)
      in if 48 \<le> k \<and> k \<le> 57 then Inr (int k - 48) else Inl ValueError)"

text \<open>The comprehension \<^verbatim>\<open>[int(digit) for digit in result]\<close>.\<close>

fun int_digits :: "string \<Rightarrow> error + int list" where
  "int_digits [] = Inr []"
| "int_digits (c # cs) =
     (case py_int c of
        Inl e \<Rightarrow> Inl e
      | Inr d \<Rightarrow> (case int_digits cs of Inl e \<Rightarrow> Inl e | Inr ds \<Rightarrow> Inr (d # ds)))"

definition bitfield :: "width_policy \<Rightarrow> nat \<Rightarrow> nat \<Rightarrow> error + int list" where
  "bitfield pol n L =
     (case binary_repr pol n L of Inl e \<Rightarrow> Inl e | Inr result \<Rightarrow> int_digits result)"

text \<open>\<^verbatim>\<open>np.count_nonzero\<close> on a list of integers.\<close>

definition count_nonzero :: "int list \<Rightarrow> int" where
  "count_nonzero cur = int (length (filter (\<lambda>d. d \<noteq> 0) cur))"

subsection \<open>The disjointness check\<close>

text \<open>
  Modelled from the spec: \<^verbatim>\<open>setpacking.check_disjoint\<close> is a function of the imported
  library and is not in the repository. The spec says it "returns true iff, for every
  pair of subsets both marked selected, their intersection is empty", position \<open>i\<close> of
  the selection vector marking subset \<open>i\<close>, and that it is deterministic and pure.
\<close>

definition selected :: "int list \<Rightarrow> int list list \<Rightarrow> int list list" where
  "selected sol subsets = map snd (filter (\<lambda>(b, s). b = 1) (zip sol subsets))"

fun pairwise_disjoint :: "int list list \<Rightarrow> bool" where
  "pairwise_disjoint [] = True"
| "pairwise_disjoint (s # ss) =
     ((\<forall>t \<in> set ss. set s \<inter> set t = {}) \<and> pairwise_disjoint ss)"

definition check_disjoint :: "int list \<Rightarrow> int list list \<Rightarrow> bool" where
  "check_disjoint sol subsets = pairwise_disjoint (selected sol subsets)"

subsection \<open>The loop\<close>

text \<open>The comparison \<^verbatim>\<open>np.count_nonzero(cur) > max_v\<close>.\<close>

fun exceeds :: "int \<Rightarrow> max_value \<Rightarrow> bool" where
  "exceeds c NegInf = True"
| "exceeds c (Count m) = (m < c)"

text \<open>
  One iteration. The disjointness check is a parameter, so that the loop can be studied
  for any check; it receives the global list, read again at every iteration.
\<close>

definition loop_body ::
  "(int list \<Rightarrow> int list list \<Rightarrow> bool) \<Rightarrow> width_policy \<Rightarrow> nat \<Rightarrow> nat \<Rightarrow>
   max_value \<Rightarrow> globals \<Rightarrow> (error + max_value) \<times> globals" where
  "loop_body chk pol L i max_v g =
     (case bitfield pol i L of
        Inl e \<Rightarrow> (Inl e, g)
      | Inr cur \<Rightarrow>
          let cur_v = chk cur (list_of_subsets g)
          in if cur_v then
               if exceeds (count_nonzero cur) max_v
               then (Inr (Count (count_nonzero cur)), g)
               else (Inr max_v, g)
             else (Inr max_v, g))"

fun loop ::
  "(int list \<Rightarrow> int list list \<Rightarrow> bool) \<Rightarrow> width_policy \<Rightarrow> nat \<Rightarrow> nat list \<Rightarrow>
   max_value \<Rightarrow> globals \<Rightarrow> (error + max_value) \<times> globals" where
  "loop chk pol L [] max_v g = (Inr max_v, g)"
| "loop chk pol L (i # is) max_v g =
     (case loop_body chk pol L i max_v g of
        (Inl e, g') \<Rightarrow> (Inl e, g')
      | (Inr max_v', g') \<Rightarrow> loop chk pol L is max_v' g')"

definition brute_force_with ::
  "(int list \<Rightarrow> int list list \<Rightarrow> bool) \<Rightarrow> width_policy \<Rightarrow> globals \<Rightarrow>
   (error + max_value) \<times> globals" where
  "brute_force_with chk pol g =
     (let L = length (list_of_subsets g);
          max = 2 ^ L
      in loop chk pol L [0..<max] NegInf g)"

definition brute_force :: "width_policy \<Rightarrow> globals \<Rightarrow> (error + max_value) \<times> globals" where
  "brute_force pol g = brute_force_with check_disjoint pol g"

section \<open>Notions used to state the properties\<close>

text \<open>
  The natural binary representation of a number, most significant digit first, as a
  list of digits: the number 0 is the single digit 0, and a positive number has no
  leading zero.
\<close>

fun natural_bits :: "nat \<Rightarrow> int list" where
  "natural_bits n =
     (if n < 2 then [int n] else natural_bits (n div 2) @ [int (n mod 2)])"

declare natural_bits.simps [simp del]

text \<open>The number a digit sequence denotes when its first digit is the most significant.\<close>

definition msb_value :: "int list \<Rightarrow> int" where
  "msb_value ds = foldl (\<lambda>acc d. 2 * acc + d) 0 ds"

text \<open>A selection vector for \<open>L\<close> subsets: \<open>L\<close> digits, each 0 or 1.\<close>

definition selection_vector :: "nat \<Rightarrow> int list \<Rightarrow> bool" where
  "selection_vector L v = (length v = L \<and> set v \<subseteq> {0, 1})"

text \<open>The order in which \<^verbatim>\<open>-np.inf\<close> lies below every count.\<close>

fun max_value_le :: "max_value \<Rightarrow> max_value \<Rightarrow> bool" where
  "max_value_le NegInf r = True"
| "max_value_le (Count a) NegInf = False"
| "max_value_le (Count a) (Count b) = (a \<le> b)"

section \<open>The global list is only read\<close>

lemma loop_body_frame: "snd (loop_body chk pol L i max_v g) = g"
  by (simp add: loop_body_def Let_def split: sum.splits)

lemma loop_frame: "snd (loop chk pol L is max_v g) = g"
proof (induction "is" arbitrary: max_v)
  case Nil
  show ?case by simp
next
  case (Cons i "is")
  obtain r g' where step: "loop_body chk pol L i max_v g = (r, g')"
    by (cases "loop_body chk pol L i max_v g")
  with loop_body_frame [of chk pol L i max_v g] have "g' = g"
    by simp
  with step Cons.IH show ?case
    by (cases r) simp_all
qed

lemma brute_force_with_frame: "snd (brute_force_with chk pol g) = g"
  by (simp add: brute_force_with_def Let_def loop_frame)

text \<open>
  Claim C10. A call of \<^verbatim>\<open>brute_force\<close> leaves the global \<^verbatim>\<open>list_of_subsets\<close> as it
  found it, and a second call, made in the state the first one left, returns the same
  result as the first.
\<close>

theorem brute_force_frame:
  "snd (brute_force pol g) = g \<and>
   fst (brute_force pol (snd (brute_force pol g))) = fst (brute_force pol g)"
  by (simp add: brute_force_def brute_force_with_frame)

section \<open>What \<^verbatim>\<open>bitfield\<close> returns\<close>

lemma py_int_digit_char: "py_int (digit_char d) = Inr (if d = 0 then 0 else 1)"
  by (simp add: py_int_def digit_char_def)

lemma int_digits_append:
  "int_digits cs = Inr ds \<Longrightarrow> int_digits cs' = Inr ds' \<Longrightarrow> int_digits (cs @ cs') = Inr (ds @ ds')"
  by (induction cs arbitrary: ds) (auto split: sum.splits)

lemma int_digits_zeros: "int_digits (replicate k (CHR ''0'')) = Inr (replicate k 0)"
  by (induction k) (simp_all add: py_int_def)

lemma int_digits_bin: "int_digits (bin_digits n) = Inr (natural_bits n)"
proof (induction n rule: bin_digits.induct)
  case (1 n)
  show ?case
  proof (cases "n < 2")
    case True
    then have "n = 0 \<or> n = 1" by arith
    then show ?thesis
      by (subst bin_digits.simps, subst natural_bits.simps) (auto simp: py_int_digit_char)
  next
    case False
    have last: "int_digits [digit_char (n mod 2)] = Inr [int (n mod 2)]"
      by (simp add: py_int_digit_char)
    from False "1.IH" have "int_digits (bin_digits (n div 2)) = Inr (natural_bits (n div 2))"
      by simp
    from int_digits_append [OF this last] False show ?thesis
      by (subst bin_digits.simps, subst natural_bits.simps) simp
  qed
qed

lemma int_digits_length: "int_digits cs = Inr ds \<Longrightarrow> length ds = length cs"
  by (induction cs arbitrary: ds) (auto split: sum.splits)

lemma length_bin_digits: "length (bin_digits n) = length (natural_bits n)"
  using int_digits_length [OF int_digits_bin [of n]] by simp

lemma natural_bits_nonempty: "natural_bits n \<noteq> []"
  by (subst natural_bits.simps) simp

lemma natural_bits_length_le: "0 < L \<Longrightarrow> n < 2 ^ L \<Longrightarrow> length (natural_bits n) \<le> L"
proof (induction n arbitrary: L rule: natural_bits.induct)
  case (1 n)
  show ?case
  proof (cases "n < 2")
    case True
    with "1.prems" show ?thesis by (subst natural_bits.simps) simp
  next
    case False
    from "1.prems" obtain K where L: "L = Suc K" by (cases L) auto
    with "1.prems" False have K: "0 < K" by (cases K) auto
    from "1.prems" L have "n div 2 < 2 ^ K" by auto
    from "1.IH" [OF False K this] L False show ?thesis
      by (subst natural_bits.simps) simp
  qed
qed

lemma natural_bits_length_gt: "2 ^ L \<le> n \<Longrightarrow> L < length (natural_bits n)"
proof (induction n arbitrary: L rule: natural_bits.induct)
  case (1 n)
  show ?case
  proof (cases "n < 2")
    case True
    have "L = 0"
    proof (rule ccontr)
      assume "L \<noteq> 0"
      then have "(2::nat) ^ 1 \<le> 2 ^ L" by (intro power_increasing) auto
      with True "1.prems" show False by simp
    qed
    then show ?thesis by (subst natural_bits.simps) simp
  next
    case False
    show ?thesis
    proof (cases L)
      case 0
      then show ?thesis using natural_bits_nonempty [of n] by (cases "natural_bits n") auto
    next
      case (Suc K)
      with "1.prems" have "2 ^ K \<le> n div 2" by auto
      from "1.IH" [OF False this] Suc False show ?thesis
        by (subst natural_bits.simps) simp
    qed
  qed
qed

lemma natural_bits_binary: "set (natural_bits n) \<subseteq> {0, 1}"
proof (induction n rule: natural_bits.induct)
  case (1 n)
  show ?case
  proof (cases "n < 2")
    case True
    then have "n = 0 \<or> n = 1" by arith
    then show ?thesis by (subst natural_bits.simps) auto
  next
    case False
    have "int (n mod 2) = 0 \<or> int (n mod 2) = 1" by auto
    with "1.IH" [OF False] False show ?thesis
      by (subst natural_bits.simps) auto
  qed
qed

lemma natural_bits_leading_one: "0 < n \<Longrightarrow> hd (natural_bits n) = 1"
proof (induction n rule: natural_bits.induct)
  case (1 n)
  show ?case
  proof (cases "n < 2")
    case True
    with "1.prems" have "n = 1" by simp
    then show ?thesis by (subst natural_bits.simps) simp
  next
    case False
    then have "0 < n div 2" by simp
    from "1.IH" [OF False this] False natural_bits_nonempty [of "n div 2"] show ?thesis
      by (subst natural_bits.simps) simp
  qed
qed

lemma msb_value_snoc: "msb_value (ds @ [d]) = 2 * msb_value ds + d"
  by (simp add: msb_value_def)

lemma msb_value_natural_bits: "msb_value (natural_bits n) = int n"
proof (induction n rule: natural_bits.induct)
  case (1 n)
  show ?case
  proof (cases "n < 2")
    case True
    then show ?thesis by (subst natural_bits.simps) (simp add: msb_value_def)
  next
    case False
    with "1.IH" [OF False] show ?thesis
      by (subst natural_bits.simps) (simp add: msb_value_snoc, presburger)
  qed
qed

lemma foldl_zeros: "foldl (\<lambda>acc d. 2 * acc + d) (0::int) (replicate k 0) = 0"
  by (induction k) simp_all

lemma msb_value_zeros: "msb_value (replicate k 0 @ ds) = msb_value ds"
  by (simp add: msb_value_def foldl_zeros)

lemma bitfield_padded:
  assumes "0 < L" "n < 2 ^ L"
  shows "bitfield pol n L = Inr (replicate (L - length (natural_bits n)) 0 @ natural_bits n)"
proof (cases "n = 0")
  case True
  from assms have "replicate (L - 1) (0::int) @ [0] = replicate L 0"
    by (cases L) (simp_all add: replicate_append_same)
  moreover have "natural_bits 0 = [0]" by (subst natural_bits.simps) simp
  ultimately show ?thesis using True assms
    by (simp add: bitfield_def binary_repr_def int_digits_zeros)
next
  case False
  from assms have len: "length (natural_bits n) \<le> L" by (rule natural_bits_length_le)
  have "int_digits (replicate (L - length (natural_bits n)) (CHR ''0'') @ bin_digits n)
        = Inr (replicate (L - length (natural_bits n)) 0 @ natural_bits n)"
    by (rule int_digits_append [OF int_digits_zeros int_digits_bin])
  with False len show ?thesis
    by (simp add: bitfield_def binary_repr_def Let_def zfill_def length_bin_digits max_def)
qed

lemma bitfield_too_wide:
  assumes "2 ^ L \<le> n"
  shows "bitfield Raise n L = Inl ValueError" and "bitfield Warn n L = Inr (natural_bits n)"
proof -
  from assms have gt: "L < length (natural_bits n)" by (rule natural_bits_length_gt)
  from assms have n0: "n \<noteq> 0" by (cases n) auto
  from gt n0 show "bitfield Raise n L = Inl ValueError"
    by (simp add: bitfield_def binary_repr_def Let_def length_bin_digits)
  from gt n0 show "bitfield Warn n L = Inr (natural_bits n)"
    by (simp add: bitfield_def binary_repr_def Let_def zfill_def length_bin_digits max_def int_digits_bin)
qed

lemma bitfield_shape:
  assumes "0 < L" and "n < 2 ^ L"
  shows "\<exists>ds. bitfield pol n L = Inr ds \<and> length ds = L \<and> set ds \<subseteq> {0, 1} \<and>
           msb_value ds = int n \<and> length (natural_bits n) \<le> L \<and>
           ds = replicate (L - length (natural_bits n)) 0 @ natural_bits n"
proof -
  from assms have pos: "0 < L" by simp
  from pos assms(2) have len: "length (natural_bits n) \<le> L"
    by (rule natural_bits_length_le)
  let ?ds = "replicate (L - length (natural_bits n)) 0 @ natural_bits n"
  have "bitfield pol n L = Inr ?ds"
    using pos assms(2) by (rule bitfield_padded)
  moreover from len have "length ?ds = L" by simp
  moreover have "set ?ds \<subseteq> {0, 1}"
    using natural_bits_binary [of n] by auto
  moreover have "msb_value ?ds = int n"
    by (simp add: msb_value_zeros msb_value_natural_bits)
  ultimately show ?thesis using len by blast
qed

text \<open>
  Claim C3. For a width \<open>L \<ge> 1\<close> and a number \<open>n < 2 ^ L\<close>, \<^verbatim>\<open>bitfield(n, L)\<close> returns
  exactly \<open>L\<close> digits, each 0 or 1, whose value read most significant digit first is
  \<open>n\<close>: the natural binary representation of \<open>n\<close>, which has at most \<open>L\<close> digits, with
  zeros in front of it up to length \<open>L\<close>.
\<close>

theorem bitfield_binary:
  assumes "1 \<le> L" and "n < 2 ^ L"
  shows "\<exists>ds. bitfield pol n L = Inr ds \<and> length ds = L \<and> set ds \<subseteq> {0, 1} \<and>
           msb_value ds = int n \<and> length (natural_bits n) \<le> L \<and>
           ds = replicate (L - length (natural_bits n)) 0 @ natural_bits n"
proof (rule bitfield_shape)
  from assms(1) show "0 < L" by simp
  from assms(2) show "n < 2 ^ L" .
qed

theorem bitfield_binary_witness:
  "(1::nat) \<le> 4 \<and> (5::nat) < 2 ^ 4 \<and>
   (\<exists>ds. bitfield Warn 5 4 = Inr ds \<and> length ds = 4 \<and> set ds \<subseteq> {0, 1} \<and>
      msb_value ds = int 5 \<and> length (natural_bits 5) \<le> 4 \<and>
      ds = replicate (4 - length (natural_bits 5)) 0 @ natural_bits 5)"
  using bitfield_binary [of 4 5 Warn] by simp

text \<open>
  Claim C4 says that \<^verbatim>\<open>bitfield(n, L)\<close> fails when \<open>n \<ge> 2 ^ L\<close>. The function has no
  range check of its own, and under the numpy releases that only warn about an
  insufficient width it returns a value: \<^verbatim>\<open>bitfield(4, 2)\<close> is \<open>[1, 0, 0]\<close>.
\<close>

theorem bitfield_too_wide_counterexample:
  "(2::nat) ^ 2 \<le> 4 \<and> bitfield Warn 4 2 = Inr [1, 0, 0]"
  by code_simp

text \<open>
  Claim C4 as amended. When \<open>n \<ge> 2 ^ L\<close>, \<^verbatim>\<open>bitfield(n, L)\<close> returns the natural binary
  representation of \<open>n\<close>, which is longer than \<open>L\<close>, under a numpy release that warns
  about the insufficient width; it fails with ValueError only under a release whose
  \<^verbatim>\<open>binary_repr\<close> raises.
\<close>

theorem bitfield_too_wide_result:
  assumes "2 ^ L \<le> n"
  shows "bitfield Warn n L = Inr (natural_bits n) \<and> L < length (natural_bits n) \<and>
         bitfield Raise n L = Inl ValueError"
  using bitfield_too_wide [OF assms] natural_bits_length_gt [OF assms] by simp

theorem bitfield_too_wide_result_witness:
  "(2::nat) ^ 2 \<le> 4 \<and> bitfield Warn 4 2 = Inr (natural_bits 4) \<and>
   2 < length (natural_bits 4) \<and> bitfield Raise 4 2 = Inl ValueError"
  using bitfield_too_wide_result [of 2 4] by simp

section \<open>What the loop computes\<close>

lemma max_value_le_refl: "max_value_le r r"
  by (cases r) simp_all

lemma max_value_le_trans: "max_value_le a b \<Longrightarrow> max_value_le b c \<Longrightarrow> max_value_le a c"
  by (cases a; cases b; cases c) simp_all

lemma exceeds_iff: "exceeds c r \<longleftrightarrow> \<not> max_value_le (Count c) r"
  by (cases r) auto

lemma max_value_le_exceeds: "exceeds c r \<Longrightarrow> max_value_le r (Count c)"
  by (cases r) auto

lemma loop_body_result:
  assumes "bitfield pol i L = Inr cur"
  shows "loop_body chk pol L i max_v g =
           (Inr (if chk cur (list_of_subsets g) \<and> exceeds (count_nonzero cur) max_v
                 then Count (count_nonzero cur) else max_v), g)"
  using assms by (simp add: loop_body_def)

lemma loop_result:
  assumes "\<forall>i \<in> set is. bitfield pol i L = Inr (f i)"
  shows "\<exists>r. loop chk pol L is max_v g = (Inr r, g) \<and>
           (r = max_v \<or>
            (\<exists>i \<in> set is. chk (f i) (list_of_subsets g) \<and> r = Count (count_nonzero (f i)))) \<and>
           max_value_le max_v r \<and>
           (\<forall>i \<in> set is. chk (f i) (list_of_subsets g) \<longrightarrow>
                max_value_le (Count (count_nonzero (f i))) r)"
  using assms
proof (induction "is" arbitrary: max_v)
  case Nil
  show ?case by (simp add: max_value_le_refl)
next
  case (Cons i "is")
  let ?xs = "list_of_subsets g"
  let ?c = "count_nonzero (f i)"
  let ?take = "chk (f i) ?xs \<and> exceeds ?c max_v"
  let ?next = "if ?take then Count ?c else max_v"
  from Cons.prems have cur: "bitfield pol i L = Inr (f i)" by simp
  from Cons.prems have rest: "\<forall>j \<in> set is. bitfield pol j L = Inr (f j)" by simp
  from Cons.IH [OF rest, of ?next] obtain r where
    run: "loop chk pol L is ?next g = (Inr r, g)" and
    att: "r = ?next \<or> (\<exists>j \<in> set is. chk (f j) ?xs \<and> r = Count (count_nonzero (f j)))" and
    low: "max_value_le ?next r" and
    upp: "\<forall>j \<in> set is. chk (f j) ?xs \<longrightarrow> max_value_le (Count (count_nonzero (f j))) r"
    by blast
  have step: "max_value_le max_v ?next"
    by (simp add: max_value_le_refl max_value_le_exceeds)
  have here: "chk (f i) ?xs \<Longrightarrow> max_value_le (Count ?c) ?next"
    by (simp add: exceeds_iff)
  have 1: "loop chk pol L (i # is) max_v g = (Inr r, g)"
    using run by (simp add: loop_body_result [OF cur])
  have 2: "r = max_v \<or>
           (\<exists>j \<in> set (i # is). chk (f j) ?xs \<and> r = Count (count_nonzero (f j)))"
    using att by (cases ?take) auto
  have 3: "max_value_le max_v r"
    using step low by (rule max_value_le_trans)
  have 4: "\<forall>j \<in> set (i # is). chk (f j) ?xs \<longrightarrow> max_value_le (Count (count_nonzero (f j))) r"
    using upp here low by (auto intro: max_value_le_trans)
  from 1 2 3 4 show ?case by blast
qed

lemma bitfield_defined:
  assumes "i < 2 ^ L"
  shows "\<exists>cur. bitfield pol i L = Inr cur"
proof (cases "L = 0")
  case True
  with assms show ?thesis by (simp add: bitfield_def binary_repr_def py_int_def)
next
  case False
  with assms bitfield_padded [of L i pol] show ?thesis by simp
qed

lemma brute_force_with_result:
  fixes g :: globals
  defines "L \<equiv> length (list_of_subsets g)"
  shows "\<exists>r. brute_force_with chk pol g = (Inr r, g) \<and>
           (r = NegInf \<or>
            (\<exists>i < 2 ^ L. \<exists>cur. bitfield pol i L = Inr cur \<and> chk cur (list_of_subsets g) \<and>
                r = Count (count_nonzero cur))) \<and>
           (\<forall>i < 2 ^ L. \<forall>cur. bitfield pol i L = Inr cur \<longrightarrow> chk cur (list_of_subsets g) \<longrightarrow>
                max_value_le (Count (count_nonzero cur)) r)"
proof -
  let ?f = "\<lambda>i. projr (bitfield pol i L)"
  have all: "\<forall>i \<in> set [0..<2 ^ L]. bitfield pol i L = Inr (?f i)"
  proof
    fix i assume "i \<in> set [0..<2 ^ L]"
    then have "i < 2 ^ L" by simp
    from bitfield_defined [OF this, of pol] show "bitfield pol i L = Inr (?f i)" by auto
  qed
  from loop_result [OF all, of chk NegInf g] obtain r where
    run: "loop chk pol L [0..<2 ^ L] NegInf g = (Inr r, g)" and
    att: "r = NegInf \<or> (\<exists>i \<in> set [0..<2 ^ L]. chk (?f i) (list_of_subsets g) \<and>
            r = Count (count_nonzero (?f i)))" and
    upp: "\<forall>i \<in> set [0..<2 ^ L]. chk (?f i) (list_of_subsets g) \<longrightarrow>
            max_value_le (Count (count_nonzero (?f i))) r"
    by blast
  have 1: "brute_force_with chk pol g = (Inr r, g)"
    using run by (simp add: brute_force_with_def L_def)
  have def: "bitfield pol i L = Inr (?f i)" if "i < 2 ^ L" for i
    using all that by simp
  have 2: "r = NegInf \<or>
            (\<exists>i < 2 ^ L. \<exists>cur. bitfield pol i L = Inr cur \<and> chk cur (list_of_subsets g) \<and>
                r = Count (count_nonzero cur))"
  proof (cases "r = NegInf")
    case True
    then show ?thesis by simp
  next
    case False
    with att obtain i where i: "i < 2 ^ L" "chk (?f i) (list_of_subsets g)"
      "r = Count (count_nonzero (?f i))" by auto
    from def [OF i(1)] i show ?thesis by blast
  qed
  have 3: "\<forall>i < 2 ^ L. \<forall>cur. bitfield pol i L = Inr cur \<longrightarrow> chk cur (list_of_subsets g) \<longrightarrow>
                max_value_le (Count (count_nonzero cur)) r"
  proof (intro allI impI)
    fix i cur
    assume i: "i < 2 ^ L" and cur: "bitfield pol i L = Inr cur" and ok: "chk cur (list_of_subsets g)"
    from def [OF i] cur have "?f i = cur" by simp
    with upp i ok show "max_value_le (Count (count_nonzero cur)) r" by auto
  qed
  from 1 2 3 show ?thesis by blast
qed

lemma msb_value_bounds: "set v \<subseteq> {0, 1} \<Longrightarrow> 0 \<le> msb_value v \<and> msb_value v < 2 ^ length v"
proof (induction v rule: rev_induct)
  case Nil
  show ?case by (simp add: msb_value_def)
next
  case (snoc d v)
  then have "d = 0 \<or> d = 1" by auto
  with snoc show ?case by (auto simp: msb_value_snoc)
qed

lemma msb_value_inj:
  "length v = length w \<Longrightarrow> set v \<subseteq> {0, 1} \<Longrightarrow> set w \<subseteq> {0, 1} \<Longrightarrow>
   msb_value v = msb_value w \<Longrightarrow> v = w"
proof (induction v arbitrary: w rule: rev_induct)
  case Nil
  then show ?case by simp
next
  case (snoc d v)
  from snoc.prems(1) obtain e u where w: "w = u @ [e]"
    by (cases w rule: rev_cases) auto
  from snoc.prems w have d: "d = 0 \<or> d = 1" and e: "e = 0 \<or> e = 1" by auto
  from snoc.prems(4) w have eq: "2 * msb_value v + d = 2 * msb_value u + e"
    by (simp add: msb_value_snoc)
  with d e have "d = e" and "msb_value v = msb_value u" by presburger+
  with snoc.IH [of u] snoc.prems w show ?case by simp
qed

lemma enumerated_is_selection:
  assumes "0 < L" "i < 2 ^ L"
  shows "\<exists>v. bitfield pol i L = Inr v \<and> selection_vector L v"
  using bitfield_shape [OF assms, of pol] by (auto simp: selection_vector_def)

lemma every_selection_enumerated:
  assumes "0 < L" "selection_vector L v"
  shows "\<exists>i < 2 ^ L. bitfield pol i L = Inr v"
proof -
  from assms(2) have len: "length v = L" and bin: "set v \<subseteq> {0, 1}"
    by (simp_all add: selection_vector_def)
  from msb_value_bounds [OF bin] len have lo: "0 \<le> msb_value v" and hi: "msb_value v < 2 ^ L"
    by simp_all
  let ?i = "nat (msb_value v)"
  from lo hi have i: "?i < 2 ^ L"
    by (simp add: nat_less_iff)
  from bitfield_shape [OF assms(1) i, of pol] obtain ds where
    ds: "bitfield pol ?i L = Inr ds" "length ds = L" "set ds \<subseteq> {0, 1}" "msb_value ds = int ?i"
    by blast
  from ds(4) lo have "msb_value ds = msb_value v" by simp
  with ds(2,3) len bin have "ds = v" by (intro msb_value_inj) simp_all
  with ds(1) i show ?thesis by blast
qed

lemma count_nonzero_ones: "set v \<subseteq> {0, 1} \<Longrightarrow> count_nonzero v = int (count_list v 1)"
  by (induction v) (auto simp: count_nonzero_def)

lemma selected_Nil [simp]: "selected [] xs = []" "selected v [] = []"
  by (simp_all add: selected_def)

lemma selected_Cons [simp]:
  "selected (b # v) (x # xs) = (if b = 1 then x # selected v xs else selected v xs)"
  by (simp add: selected_def)

lemma selected_zeros: "selected (replicate n 0) xs = []"
proof (induction n arbitrary: xs)
  case 0
  show ?case by simp
next
  case (Suc n)
  then show ?case by (cases xs) simp_all
qed

lemma check_disjoint_zeros: "check_disjoint (replicate n 0) xs"
  by (simp add: check_disjoint_def selected_zeros)

lemma count_nonzero_zeros: "count_nonzero (replicate n 0) = 0"
  by (simp add: count_nonzero_def)

lemma selection_vector_zeros: "selection_vector n (replicate n 0)"
  by (auto simp: selection_vector_def)

lemma brute_force_with_max:
  fixes g :: globals
  defines "L \<equiv> length (list_of_subsets g)"
  assumes "0 < L"
  shows "\<exists>r. brute_force_with chk pol g = (Inr r, g) \<and>
           (r = NegInf \<or>
            (\<exists>v. selection_vector L v \<and> chk v (list_of_subsets g) \<and> r = Count (count_nonzero v))) \<and>
           (\<forall>v. selection_vector L v \<longrightarrow> chk v (list_of_subsets g) \<longrightarrow>
                max_value_le (Count (count_nonzero v)) r)"
proof -
  from brute_force_with_result [of chk pol g] obtain r where
    run: "brute_force_with chk pol g = (Inr r, g)" and
    att: "r = NegInf \<or>
            (\<exists>i < 2 ^ L. \<exists>cur. bitfield pol i L = Inr cur \<and> chk cur (list_of_subsets g) \<and>
                r = Count (count_nonzero cur))" and
    upp: "\<forall>i < 2 ^ L. \<forall>cur. bitfield pol i L = Inr cur \<longrightarrow> chk cur (list_of_subsets g) \<longrightarrow>
                max_value_le (Count (count_nonzero cur)) r"
    unfolding L_def by blast
  have 2: "r = NegInf \<or>
            (\<exists>v. selection_vector L v \<and> chk v (list_of_subsets g) \<and> r = Count (count_nonzero v))"
  proof (cases "r = NegInf")
    case True
    then show ?thesis by simp
  next
    case False
    with att obtain i cur where i: "i < 2 ^ L" and cur: "bitfield pol i L = Inr cur"
      and ok: "chk cur (list_of_subsets g)" "r = Count (count_nonzero cur)" by blast
    from enumerated_is_selection [OF \<open>0 < L\<close> i, of pol] cur have "selection_vector L cur"
      by auto
    with ok show ?thesis by blast
  qed
  have 3: "\<forall>v. selection_vector L v \<longrightarrow> chk v (list_of_subsets g) \<longrightarrow>
                max_value_le (Count (count_nonzero v)) r"
  proof (intro allI impI)
    fix v
    assume v: "selection_vector L v" and ok: "chk v (list_of_subsets g)"
    from every_selection_enumerated [OF \<open>0 < L\<close> v, of pol] obtain i where
      "i < 2 ^ L" "bitfield pol i L = Inr v" by blast
    with upp ok show "max_value_le (Count (count_nonzero v)) r" by blast
  qed
  from run 2 3 show ?thesis by blast
qed

lemma brute_force_selection_max:
  fixes g :: globals
  defines "L \<equiv> length (list_of_subsets g)"
  assumes "0 < L"
  shows "\<exists>m. brute_force pol g = (Inr (Count m), g) \<and>
           (\<exists>v. selection_vector L v \<and> check_disjoint v (list_of_subsets g) \<and> count_nonzero v = m) \<and>
           (\<forall>v. selection_vector L v \<longrightarrow> check_disjoint v (list_of_subsets g) \<longrightarrow>
                count_nonzero v \<le> m)"
proof -
  from brute_force_with_max [of g check_disjoint pol] assms obtain r where
    run: "brute_force_with check_disjoint pol g = (Inr r, g)" and
    att: "r = NegInf \<or>
            (\<exists>v. selection_vector L v \<and> check_disjoint v (list_of_subsets g) \<and>
                r = Count (count_nonzero v))" and
    upp: "\<forall>v. selection_vector L v \<longrightarrow> check_disjoint v (list_of_subsets g) \<longrightarrow>
                max_value_le (Count (count_nonzero v)) r"
    by auto
  from upp selection_vector_zeros [of L] check_disjoint_zeros [of L "list_of_subsets g"]
  have "max_value_le (Count (count_nonzero (replicate L 0))) r" by blast
  then obtain m where m: "r = Count m" by (cases r) simp_all
  with att have 2: "\<exists>v. selection_vector L v \<and> check_disjoint v (list_of_subsets g) \<and> count_nonzero v = m"
    by auto
  from upp m have 3: "\<forall>v. selection_vector L v \<longrightarrow> check_disjoint v (list_of_subsets g) \<longrightarrow>
                count_nonzero v \<le> m"
    by auto
  from run m 2 3 show ?thesis by (simp add: brute_force_def)
qed

lemma selected_subseq:
  "length v = length xs \<Longrightarrow> set v \<subseteq> {0, 1} \<Longrightarrow>
   subseq (selected v xs) xs \<and> count_nonzero v = int (length (selected v xs))"
proof (induction v xs rule: list_induct2)
  case Nil
  show ?case by (simp add: count_nonzero_def)
next
  case (Cons b v x xs)
  then have "b = 0 \<or> b = 1" by auto
  with Cons show ?case by (auto simp: count_nonzero_def)
qed

lemma subseq_selected:
  "subseq ys xs \<Longrightarrow> \<exists>v. selection_vector (length xs) v \<and> selected v xs = ys"
proof (induction xs arbitrary: ys)
  case Nil
  then have "ys = []" by (cases ys) auto
  then show ?case by (simp add: selection_vector_def)
next
  case (Cons x xs)
  show ?case
  proof (cases ys)
    case Nil
    with selection_vector_zeros [of "length (x # xs)"] selected_zeros [of "length (x # xs)" "x # xs"]
    show ?thesis by blast
  next
    case (Cons y zs)
    show ?thesis
    proof (cases "x = y")
      case True
      with Cons.prems Cons have "subseq zs xs" by simp
      from Cons.IH [OF this] obtain v where "selection_vector (length xs) v" "selected v xs = zs"
        by blast
      with True Cons have "selection_vector (length (x # xs)) (1 # v) \<and> selected (1 # v) (x # xs) = ys"
        by (simp add: selection_vector_def)
      then show ?thesis by blast
    next
      case False
      with Cons.prems Cons have "subseq ys xs" by (simp add: subseq_Cons2_neq)
      from Cons.IH [OF this] obtain v where "selection_vector (length xs) v" "selected v xs = ys"
        by blast
      then have "selection_vector (length (x # xs)) (0 # v) \<and> selected (0 # v) (x # xs) = ys"
        by (simp add: selection_vector_def)
      then show ?thesis by blast
    qed
  qed
qed

lemma brute_force_empty:
  assumes "list_of_subsets g = []"
  shows "brute_force pol g = (Inr (Count 0), g)"
  using assms
  by (simp add: brute_force_def brute_force_with_def loop_body_def bitfield_def binary_repr_def
      py_int_def check_disjoint_def count_nonzero_def)

lemma brute_force_packing:
  "\<exists>m. brute_force pol g = (Inr (Count m), g) \<and>
     (\<exists>ys. subseq ys (list_of_subsets g) \<and> pairwise_disjoint ys \<and> int (length ys) = m) \<and>
     (\<forall>ys. subseq ys (list_of_subsets g) \<longrightarrow> pairwise_disjoint ys \<longrightarrow> int (length ys) \<le> m)"
proof (cases "list_of_subsets g = []")
  case True
  have "subseq [] ([] :: int list list) \<and> pairwise_disjoint [] \<and> int (length ([] :: int list list)) = 0"
    by simp
  with brute_force_empty [OF True, of pol] True show ?thesis
    by auto
next
  case False
  let ?xs = "list_of_subsets g"
  let ?L = "length ?xs"
  from False have pos: "0 < ?L" by simp
  from brute_force_selection_max [OF pos, of pol] obtain m where
    run: "brute_force pol g = (Inr (Count m), g)" and
    att: "\<exists>v. selection_vector ?L v \<and> check_disjoint v ?xs \<and> count_nonzero v = m" and
    upp: "\<forall>v. selection_vector ?L v \<longrightarrow> check_disjoint v ?xs \<longrightarrow> count_nonzero v \<le> m"
    by blast
  from att obtain v where v: "selection_vector ?L v" "check_disjoint v ?xs" "count_nonzero v = m"
    by blast
  from v(1) selected_subseq [of v ?xs] have
    "subseq (selected v ?xs) ?xs" "count_nonzero v = int (length (selected v ?xs))"
    by (simp_all add: selection_vector_def)
  with v have 2: "\<exists>ys. subseq ys ?xs \<and> pairwise_disjoint ys \<and> int (length ys) = m"
    by (auto simp: check_disjoint_def)
  have 3: "\<forall>ys. subseq ys ?xs \<longrightarrow> pairwise_disjoint ys \<longrightarrow> int (length ys) \<le> m"
  proof (intro allI impI)
    fix ys
    assume sub: "subseq ys ?xs" and pd: "pairwise_disjoint ys"
    from subseq_selected [OF sub] obtain w where
      w: "selection_vector ?L w" "selected w ?xs = ys" by blast
    from w(1) selected_subseq [of w ?xs] have "count_nonzero w = int (length (selected w ?xs))"
      by (simp add: selection_vector_def)
    moreover from w pd have "check_disjoint w ?xs" by (simp add: check_disjoint_def)
    ultimately show "int (length ys) \<le> m" using upp w by auto
  qed
  from run 2 3 show ?thesis by blast
qed

section \<open>Packings do not depend on the order of the collection\<close>

lemma subseq_mset: "subseq ys xs \<Longrightarrow> mset ys \<subseteq># mset xs"
proof (induction xs arbitrary: ys)
  case Nil
  then have "ys = []" by (cases ys) auto
  then show ?case by simp
next
  case (Cons x xs)
  show ?case
  proof (cases ys)
    case Nil
    then show ?thesis by simp
  next
    case (Cons y zs)
    show ?thesis
    proof (cases "x = y")
      case True
      with Cons.prems Cons have "subseq zs xs" by simp
      from Cons.IH [OF this] True Cons show ?thesis by simp
    next
      case False
      with Cons.prems Cons have "subseq ys xs" by (simp add: subseq_Cons2_neq)
      from Cons.IH [OF this] have "mset ys \<subseteq># mset xs" .
      also have "mset xs \<subseteq># mset (x # xs)" by simp
      finally show ?thesis .
    qed
  qed
qed

lemma mset_subseq_ex: "M \<subseteq># mset xs \<Longrightarrow> \<exists>ys. subseq ys xs \<and> mset ys = M"
proof (induction xs arbitrary: M)
  case Nil
  then show ?case by simp
next
  case (Cons x xs)
  show ?case
  proof (cases "x \<in># M")
    case True
    from Cons.prems have "M - {#x#} \<subseteq># mset xs"
      by (simp add: subset_eq_diff_conv)
    from Cons.IH [OF this] obtain ys where ys: "subseq ys xs" "mset ys = M - {#x#}" by blast
    with True have "subseq (x # ys) (x # xs) \<and> mset (x # ys) = M" by simp
    then show ?thesis by blast
  next
    case False
    with Cons.prems have "M \<subseteq># mset xs"
      by (metis mset.simps(2) subset_mset.le_iff_add union_single_eq_member
          diff_single_trivial subset_eq_diff_conv add_mset_add_single)
    from Cons.IH [OF this] obtain ys where "subseq ys xs" "mset ys = M" by blast
    then have "subseq ys (x # xs) \<and> mset ys = M" by (simp add: list_emb_Cons)
    then show ?thesis by blast
  qed
qed

lemma pairwise_disjoint_iff:
  "pairwise_disjoint ys \<longleftrightarrow> (\<forall>e. length (filter (\<lambda>s. e \<in> set s) ys) \<le> 1)"
proof (induction ys)
  case Nil
  show ?case by simp
next
  case (Cons y ys)
  show ?case
  proof
    assume pd: "pairwise_disjoint (y # ys)"
    then have disj: "\<forall>t \<in> set ys. set y \<inter> set t = {}" and rest: "pairwise_disjoint ys"
      by simp_all
    show "\<forall>e. length (filter (\<lambda>s. e \<in> set s) (y # ys)) \<le> 1"
    proof
      fix e
      show "length (filter (\<lambda>s. e \<in> set s) (y # ys)) \<le> 1"
      proof (cases "e \<in> set y")
        case True
        with disj have "\<forall>t \<in> set ys. e \<notin> set t" by auto
        then have "filter (\<lambda>s. e \<in> set s) ys = []" by (simp add: filter_empty_conv)
        with True show ?thesis by simp
      next
        case False
        with rest Cons.IH show ?thesis by simp
      qed
    qed
  next
    assume cnt: "\<forall>e. length (filter (\<lambda>s. e \<in> set s) (y # ys)) \<le> 1"
    have "\<forall>e. length (filter (\<lambda>s. e \<in> set s) ys) \<le> 1"
    proof
      fix e
      from cnt have "length (filter (\<lambda>s. e \<in> set s) (y # ys)) \<le> 1" by blast
      then show "length (filter (\<lambda>s. e \<in> set s) ys) \<le> 1"
        by (simp split: if_splits)
    qed
    with Cons.IH have rest: "pairwise_disjoint ys" by simp
    have "set y \<inter> set t = {}" if t: "t \<in> set ys" for t
    proof (rule ccontr)
      assume "set y \<inter> set t \<noteq> {}"
      then obtain e where e: "e \<in> set y" "e \<in> set t" by auto
      from t e(2) have "filter (\<lambda>s. e \<in> set s) ys \<noteq> []"
        by (auto simp: filter_empty_conv)
      then have "1 \<le> length (filter (\<lambda>s. e \<in> set s) ys)"
        by (cases "filter (\<lambda>s. e \<in> set s) ys") simp_all
      with e(1) have "2 \<le> length (filter (\<lambda>s. e \<in> set s) (y # ys))" by simp
      moreover from cnt have "length (filter (\<lambda>s. e \<in> set s) (y # ys)) \<le> 1" by blast
      ultimately show False by simp
    qed
    with rest show "pairwise_disjoint (y # ys)" by simp
  qed
qed

lemma pairwise_disjoint_mset:
  assumes "mset ys = mset zs"
  shows "pairwise_disjoint ys = pairwise_disjoint zs"
proof -
  have "length (filter P ys) = length (filter P zs)" for P :: "int list \<Rightarrow> bool"
  proof -
    have "length (filter P ys) = size (filter_mset P (mset ys))"
      by (simp only: size_mset flip: mset_filter)
    also have "\<dots> = size (filter_mset P (mset zs))"
      by (simp only: assms)
    also have "\<dots> = length (filter P zs)"
      by (simp only: size_mset flip: mset_filter)
    finally show ?thesis .
  qed
  then show ?thesis by (simp add: pairwise_disjoint_iff)
qed

lemma packing_transfer:
  assumes "mset xs' = mset xs" "subseq ys xs" "pairwise_disjoint ys"
  shows "\<exists>ys'. subseq ys' xs' \<and> pairwise_disjoint ys' \<and> length ys' = length ys"
proof -
  from subseq_mset [OF assms(2)] assms(1) have "mset ys \<subseteq># mset xs'" by simp
  from mset_subseq_ex [OF this] obtain ys' where ys': "subseq ys' xs'" "mset ys' = mset ys"
    by blast
  from ys'(2) assms(3) have "pairwise_disjoint ys'"
    by (simp add: pairwise_disjoint_mset [of ys' ys])
  moreover from ys'(2) have "length ys' = length ys"
    by (metis size_mset)
  ultimately show ?thesis using ys'(1) by blast
qed

section \<open>The result of \<^verbatim>\<open>brute_force\<close>\<close>

text \<open>
  Claim C1. For a collection of \<open>L \<ge> 1\<close> subsets, the candidates \<^verbatim>\<open>bitfield(i, L)\<close> for
  \<open>i\<close> from 0 to \<open>2 ^ L - 1\<close> are selection vectors, every selection vector is one of
  them, and \<^verbatim>\<open>brute_force\<close> returns the largest number of 1 digits of a selection
  vector that passes the disjointness check: some passing vector has that many, and no
  passing vector has more.
\<close>

theorem brute_force_maximum:
  fixes g :: globals
  assumes "1 \<le> length (list_of_subsets g)"
  shows "(\<forall>i < 2 ^ length (list_of_subsets g).
            \<exists>cur. bitfield pol i (length (list_of_subsets g)) = Inr cur \<and>
                  selection_vector (length (list_of_subsets g)) cur) \<and>
         (\<forall>v. selection_vector (length (list_of_subsets g)) v \<longrightarrow>
            (\<exists>i < 2 ^ length (list_of_subsets g).
                bitfield pol i (length (list_of_subsets g)) = Inr v)) \<and>
         (\<exists>m. fst (brute_force pol g) = Inr (Count m) \<and>
            (\<exists>v. selection_vector (length (list_of_subsets g)) v \<and>
                 check_disjoint v (list_of_subsets g) \<and> int (count_list v 1) = m) \<and>
            (\<forall>v. selection_vector (length (list_of_subsets g)) v \<longrightarrow>
                 check_disjoint v (list_of_subsets g) \<longrightarrow> int (count_list v 1) \<le> m))"
proof -
  let ?xs = "list_of_subsets g"
  let ?L = "length ?xs"
  from assms have pos: "0 < ?L" by (cases ?xs) simp_all
  have ones: "count_nonzero v = int (count_list v 1)" if "selection_vector ?L v" for v
    using that by (simp add: selection_vector_def count_nonzero_ones)
  have 1: "\<forall>i < 2 ^ ?L. \<exists>cur. bitfield pol i ?L = Inr cur \<and> selection_vector ?L cur"
    using enumerated_is_selection [OF pos] by blast
  have 2: "\<forall>v. selection_vector ?L v \<longrightarrow> (\<exists>i < 2 ^ ?L. bitfield pol i ?L = Inr v)"
    using every_selection_enumerated [OF pos] by blast
  from brute_force_selection_max [OF pos, of pol] obtain m where
    run: "brute_force pol g = (Inr (Count m), g)" and
    att: "\<exists>v. selection_vector ?L v \<and> check_disjoint v ?xs \<and> count_nonzero v = m" and
    upp: "\<forall>v. selection_vector ?L v \<longrightarrow> check_disjoint v ?xs \<longrightarrow> count_nonzero v \<le> m"
    by blast
  from att ones have 3:
    "\<exists>v. selection_vector ?L v \<and> check_disjoint v ?xs \<and> int (count_list v 1) = m"
    by metis
  from upp ones have 4:
    "\<forall>v. selection_vector ?L v \<longrightarrow> check_disjoint v ?xs \<longrightarrow> int (count_list v 1) \<le> m"
    by metis
  from run have "fst (brute_force pol g) = Inr (Count m)" by simp
  with 1 2 3 4 show ?thesis by blast
qed


theorem brute_force_maximum_witness:
  "1 \<le> length (list_of_subsets \<lparr>list_of_subsets = [[1, 2], [2, 3]]\<rparr>) \<and>
   (\<exists>m. fst (brute_force Warn \<lparr>list_of_subsets = [[1, 2], [2, 3]]\<rparr>) = Inr (Count m) \<and>
      (\<exists>v. selection_vector 2 v \<and> check_disjoint v [[1, 2], [2, 3]] \<and>
           int (count_list v 1) = m) \<and>
      (\<forall>v. selection_vector 2 v \<longrightarrow> check_disjoint v [[1, 2], [2, 3]] \<longrightarrow>
           int (count_list v 1) \<le> m))"
proof -
  have h: "1 \<le> length (list_of_subsets \<lparr>list_of_subsets = [[1, 2], [2, 3]]\<rparr>)"
    by simp
  from brute_force_maximum [OF h, of Warn] h show ?thesis
    by (simp add: numeral_2_eq_2)
qed

text \<open>
  Claim C5. For a collection of \<open>L \<ge> 1\<close> subsets the all-zero selection vector passes the
  disjointness check and has no nonzero digit, and \<^verbatim>\<open>brute_force\<close> returns a count
  that is at least 0.
\<close>

theorem empty_selection_valid:
  fixes g :: globals
  assumes "1 \<le> length (list_of_subsets g)"
  shows "check_disjoint (replicate (length (list_of_subsets g)) 0) (list_of_subsets g) \<and>
         count_nonzero (replicate (length (list_of_subsets g)) 0) = 0 \<and>
         (\<exists>k. fst (brute_force pol g) = Inr (Count k) \<and> 0 \<le> k)"
proof -
  let ?xs = "list_of_subsets g"
  from brute_force_packing [of pol g] obtain m where
    run: "brute_force pol g = (Inr (Count m), g)" and
    att: "\<exists>ys. subseq ys ?xs \<and> pairwise_disjoint ys \<and> int (length ys) = m"
    by blast
  from att have "0 \<le> m" by auto
  with run have "\<exists>k. fst (brute_force pol g) = Inr (Count k) \<and> 0 \<le> k" by simp
  moreover have "check_disjoint (replicate (length ?xs) 0) ?xs"
    by (rule check_disjoint_zeros)
  moreover have "count_nonzero (replicate (length ?xs) 0) = 0"
    by (rule count_nonzero_zeros)
  ultimately show ?thesis by blast
qed


theorem empty_selection_valid_witness:
  "1 \<le> length (list_of_subsets \<lparr>list_of_subsets = [[1], [1], [1]]\<rparr>) \<and>
   check_disjoint (replicate 3 0) [[1], [1], [1]] \<and>
   count_nonzero (replicate 3 0) = 0 \<and>
   (\<exists>k. fst (brute_force Raise \<lparr>list_of_subsets = [[1], [1], [1]]\<rparr>) = Inr (Count k) \<and> 0 \<le> k)"
proof -
  have h: "1 \<le> length (list_of_subsets \<lparr>list_of_subsets = [[1], [1], [1]]\<rparr>)"
    by simp
  from empty_selection_valid [OF h, of Raise] h show ?thesis
    by (simp add: numeral_3_eq_3)
qed

text \<open>
  Claim C9. Whatever the check, if it returns false on every one of the \<open>2 ^ L\<close>
  candidates that the loop builds, the loop returns its initial value, negative
  infinity, which is not a count.
\<close>

theorem brute_force_no_valid_candidate:
  fixes g :: globals
  assumes "\<forall>i < 2 ^ length (list_of_subsets g). \<forall>cur.
             bitfield pol i (length (list_of_subsets g)) = Inr cur \<longrightarrow>
             \<not> chk cur (list_of_subsets g)"
  shows "fst (brute_force_with chk pol g) = Inr NegInf \<and>
         (\<forall>m. fst (brute_force_with chk pol g) \<noteq> Inr (Count m))"
proof -
  from brute_force_with_result [of chk pol g] obtain r where
    run: "brute_force_with chk pol g = (Inr r, g)" and
    att: "r = NegInf \<or>
            (\<exists>i < 2 ^ length (list_of_subsets g). \<exists>cur.
                bitfield pol i (length (list_of_subsets g)) = Inr cur \<and>
                chk cur (list_of_subsets g) \<and> r = Count (count_nonzero cur))"
    by blast
  from att assms have "r = NegInf" by blast
  with run show ?thesis by simp
qed


theorem brute_force_no_valid_candidate_witness:
  "fst (brute_force_with (\<lambda>sol subsets. False) Warn \<lparr>list_of_subsets = [[4, 5], [4], [5]]\<rparr>)
     = Inr NegInf"
proof -
  have h: "\<forall>i < 2 ^ length (list_of_subsets \<lparr>list_of_subsets = [[4, 5], [4], [5]]\<rparr>). \<forall>cur.
      bitfield Warn i (length (list_of_subsets \<lparr>list_of_subsets = [[4, 5], [4], [5]]\<rparr>)) = Inr cur \<longrightarrow>
      \<not> (\<lambda>sol subsets. False) cur (list_of_subsets \<lparr>list_of_subsets = [[4, 5], [4], [5]]\<rparr>)"
    by simp
  from brute_force_no_valid_candidate [OF h] h show ?thesis
    by blast
qed

text \<open>
  Claim C6. When a subset that shares no element with any subset of the collection is
  appended to the collection, the value returned by \<^verbatim>\<open>brute_force\<close> does not decrease.
\<close>

theorem brute_force_append_mono:
  fixes g :: globals
  assumes "\<forall>s \<in> set (list_of_subsets g). set new \<inter> set s = {}"
  shows "\<exists>a b. fst (brute_force pol g) = Inr (Count a) \<and>
           fst (brute_force pol (g\<lparr>list_of_subsets := list_of_subsets g @ [new]\<rparr>))
             = Inr (Count b) \<and>
           a \<le> b"
proof -
  let ?xs = "list_of_subsets g"
  let ?g' = "g\<lparr>list_of_subsets := ?xs @ [new]\<rparr>"
  from brute_force_packing [of pol g] obtain a where
    run: "brute_force pol g = (Inr (Count a), g)" and
    att: "\<exists>ys. subseq ys ?xs \<and> pairwise_disjoint ys \<and> int (length ys) = a"
    by blast
  from brute_force_packing [of pol ?g'] obtain b where
    run': "brute_force pol ?g' = (Inr (Count b), ?g')" and
    upp': "\<forall>ys. subseq ys (list_of_subsets ?g') \<longrightarrow> pairwise_disjoint ys \<longrightarrow>
             int (length ys) \<le> b"
    by blast
  from att obtain ys where ys: "subseq ys ?xs" "pairwise_disjoint ys" "int (length ys) = a"
    by blast
  from ys(1) have "subseq ys (list_of_subsets ?g')"
    by (simp add: list_emb_prefix)
  with upp' ys(2) have "int (length ys) \<le> b" by blast
  with ys(3) have "a \<le> b" by simp
  with run run' show ?thesis by simp
qed

theorem brute_force_append_mono_witness:
  "\<exists>a b. fst (brute_force Warn \<lparr>list_of_subsets = [[4, 5], [4]]\<rparr>) = Inr (Count a) \<and>
     fst (brute_force Warn \<lparr>list_of_subsets = [[4, 5], [4], [6]]\<rparr>) = Inr (Count b) \<and>
     a \<le> b"
proof -
  have h: "\<forall>s \<in> set (list_of_subsets \<lparr>list_of_subsets = [[4, 5], [4]]\<rparr>).
             set [6] \<inter> set s = {}"
    by simp
  from brute_force_append_mono [OF h, of Warn] show ?thesis
    by simp
qed

text \<open>
  Claim C7. On a permutation of the collection (the same subsets with the same
  multiplicities, in other positions) \<^verbatim>\<open>brute_force\<close> returns the same value.
\<close>

theorem brute_force_permutation:
  fixes g g' :: globals
  assumes "mset (list_of_subsets g') = mset (list_of_subsets g)"
  shows "fst (brute_force pol g') = fst (brute_force pol g)"
proof -
  let ?xs = "list_of_subsets g"
  let ?xs' = "list_of_subsets g'"
  from brute_force_packing [of pol g] obtain m where
    run: "brute_force pol g = (Inr (Count m), g)" and
    att: "\<exists>ys. subseq ys ?xs \<and> pairwise_disjoint ys \<and> int (length ys) = m" and
    upp: "\<forall>ys. subseq ys ?xs \<longrightarrow> pairwise_disjoint ys \<longrightarrow> int (length ys) \<le> m"
    by blast
  from brute_force_packing [of pol g'] obtain m' where
    run': "brute_force pol g' = (Inr (Count m'), g')" and
    att': "\<exists>ys. subseq ys ?xs' \<and> pairwise_disjoint ys \<and> int (length ys) = m'" and
    upp': "\<forall>ys. subseq ys ?xs' \<longrightarrow> pairwise_disjoint ys \<longrightarrow> int (length ys) \<le> m'"
    by blast
  have "m \<le> m'"
  proof -
    from att obtain ys where ys: "subseq ys ?xs" "pairwise_disjoint ys" "int (length ys) = m"
      by blast
    from packing_transfer [OF assms ys(1,2)] obtain zs where
      "subseq zs ?xs'" "pairwise_disjoint zs" "length zs = length ys" by blast
    with upp' ys(3) show ?thesis by auto
  qed
  moreover have "m' \<le> m"
  proof -
    from att' obtain ys where ys: "subseq ys ?xs'" "pairwise_disjoint ys" "int (length ys) = m'"
      by blast
    from packing_transfer [OF assms [symmetric] ys(1,2)] obtain zs where
      "subseq zs ?xs" "pairwise_disjoint zs" "length zs = length ys" by blast
    with upp ys(3) show ?thesis by auto
  qed
  ultimately have "m' = m" by simp
  with run run' show ?thesis by simp
qed

theorem brute_force_permutation_witness:
  "mset (list_of_subsets \<lparr>list_of_subsets = [[5], [4, 5], [4]]\<rparr>)
     = mset (list_of_subsets \<lparr>list_of_subsets = [[4, 5], [4], [5]]\<rparr>) \<and>
   fst (brute_force Raise \<lparr>list_of_subsets = [[5], [4, 5], [4]]\<rparr>)
     = fst (brute_force Raise \<lparr>list_of_subsets = [[4, 5], [4], [5]]\<rparr>)"
proof -
  have h: "mset (list_of_subsets \<lparr>list_of_subsets = [[5], [4, 5], [4]]\<rparr>)
     = mset (list_of_subsets \<lparr>list_of_subsets = [[4, 5], [4], [5]]\<rparr>)"
    by simp
  from brute_force_permutation [OF h, of Raise] h show ?thesis
    by blast
qed

section \<open>Concrete runs\<close>

text \<open>
  Claim C8. For the empty collection the loop asks for \<^verbatim>\<open>bitfield(0, 0)\<close>, which is
  the one-element list \<open>[0]\<close>: its length is 1, not the requested width 0.
\<close>

theorem bitfield_zero_width:
  "bitfield pol 0 0 = Inr [0] \<and> length [0::int] = 1"
  by (simp add: bitfield_def binary_repr_def py_int_def)

text \<open>
  Claim C2. On the notebook's sample \<open>[[4,5],[4],[5]]\<close> the selection \<open>[0,1,1]\<close> passes
  the disjointness check, each of the three selections that take position 0 together
  with position 1 or position 2 fails it, and \<^verbatim>\<open>brute_force\<close> returns 2.
\<close>

theorem sample_run:
  "check_disjoint [0, 1, 1] [[4, 5], [4], [5]] \<and>
   \<not> check_disjoint [1, 1, 0] [[4, 5], [4], [5]] \<and>
   \<not> check_disjoint [1, 0, 1] [[4, 5], [4], [5]] \<and>
   \<not> check_disjoint [1, 1, 1] [[4, 5], [4], [5]] \<and>
   fst (brute_force Warn \<lparr>list_of_subsets = [[4, 5], [4], [5]]\<rparr>) = Inr (Count 2) \<and>
   fst (brute_force Raise \<lparr>list_of_subsets = [[4, 5], [4], [5]]\<rparr>) = Inr (Count 2)"
proof -
  have a: "check_disjoint [0, 1, 1] [[4, 5], [4], [5]]"
    by (simp add: check_disjoint_def selected_def)
  have b: "\<not> check_disjoint [1, 1, 0] [[4, 5], [4], [5]]"
    by (simp add: check_disjoint_def selected_def)
  have c: "\<not> check_disjoint [1, 0, 1] [[4, 5], [4], [5]]"
    by (simp add: check_disjoint_def selected_def)
  have d: "\<not> check_disjoint [1, 1, 1] [[4, 5], [4], [5]]"
    by (simp add: check_disjoint_def selected_def)
  have e: "fst (brute_force Warn \<lparr>list_of_subsets = [[4, 5], [4], [5]]\<rparr>) = Inr (Count 2)"
    by code_simp
  have f: "fst (brute_force Raise \<lparr>list_of_subsets = [[4, 5], [4], [5]]\<rparr>) = Inr (Count 2)"
    by code_simp
  from a b c d e f show ?thesis by blast
qed

end
